theory Spec2Isabelle
  imports Main
begin

section \<open>The image grid: sequence, selection and history\<close>

text \<open>
  The state of \<^verbatim>\<open>ImageGridWidget\<close> that the operations below read and write.
  An image entry (pixmap, filename, full path) is kept abstract as \<open>'a\<close>; indices are
  Python integers.
\<close>

record 'a grid =
  images :: "'a list"
  selected_indices :: "int set"
  last_selected_index :: "int option"
  history :: "'a list list"
  redo_stack :: "'a list list"
  max_history :: int

text \<open>\<^verbatim>\<open>__init__\<close>: everything empty, the history cap set to 50.\<close>

definition init_grid :: "'a grid" where
  "init_grid =
     \<lparr>images = [], selected_indices = {}, last_selected_index = None,
      history = [], redo_stack = [], max_history = 50\<rparr>"

subsection \<open>Python list primitives\<close>

text \<open>The guard \<^verbatim>\<open>0 <= idx < len(xs)\<close>.\<close>

definition in_range :: "int \<Rightarrow> 'a list \<Rightarrow> bool" where
  "in_range idx xs = (0 \<le> idx \<and> idx < int (length xs))"

text \<open>\<^verbatim>\<open>xs.pop(idx)\<close>, only ever called under the guard \<open>in_range\<close>.\<close>

definition pop_at :: "'a list \<Rightarrow> int \<Rightarrow> 'a list" where
  "pop_at xs idx = take (nat idx) xs @ drop (Suc (nat idx)) xs"

text \<open>
  \<^verbatim>\<open>xs.insert(i, x)\<close>: a negative index counts from the end, and the position is
  clamped to \<open>[0, len(xs)]\<close>; it never raises.
\<close>

definition insert_at :: "'a list \<Rightarrow> int \<Rightarrow> 'a \<Rightarrow> 'a list" where
  "insert_at xs i x =
     (let n = int (length xs);
          j = (if i < 0 then max 0 (i + n) else min i n)
      in take (nat j) xs @ x # drop (nat j) xs)"

subsection \<open>Undo history\<close>

text \<open>
  \<^verbatim>\<open>save_state\<close>: append a copy of the current order to the history, clear the redo
  stack, and drop the oldest snapshot (\<^verbatim>\<open>history.pop(0)\<close>) when the history is longer
  than the cap.
\<close>

definition save_state :: "'a grid \<Rightarrow> 'a grid" where
  "save_state st =
     (let h = history st @ [images st]
      in st\<lparr>history := (if int (length h) > max_history st then tl h else h),
            redo_stack := []\<rparr>)"

text \<open>\<^verbatim>\<open>undo\<close> and \<^verbatim>\<open>redo\<close>; on an empty stack they only print a message.\<close>

definition undo :: "'a grid \<Rightarrow> 'a grid" where
  "undo st =
     (if length (history st) > 0
      then st\<lparr>redo_stack := redo_stack st @ [images st],
              images := last (history st),
              history := butlast (history st),
              selected_indices := {},
              last_selected_index := None\<rparr>
      else st)"

definition redo :: "'a grid \<Rightarrow> 'a grid" where
  "redo st =
     (if length (redo_stack st) > 0
      then st\<lparr>history := history st @ [images st],
              images := last (redo_stack st),
              redo_stack := butlast (redo_stack st),
              selected_indices := {},
              last_selected_index := None\<rparr>
      else st)"

subsection \<open>Loading and appending\<close>

definition add_images :: "'a grid \<Rightarrow> 'a list \<Rightarrow> 'a grid" where
  "add_images st new =
     st\<lparr>images := new, selected_indices := {}, last_selected_index := None,
        history := [], redo_stack := []\<rparr>"

definition append_images :: "'a grid \<Rightarrow> 'a list \<Rightarrow> 'a grid" where
  "append_images st new =
     (if new \<noteq> []
      then (let st1 = save_state st in st1\<lparr>images := images st1 @ new\<rparr>)
      else st)"

subsection \<open>Selection\<close>

definition clear_selection :: "'a grid \<Rightarrow> 'a grid" where
  "clear_selection st = st\<lparr>selected_indices := {}\<rparr>"

definition select_single :: "'a grid \<Rightarrow> int \<Rightarrow> 'a grid" where
  "select_single st index =
     st\<lparr>selected_indices := {index}, last_selected_index := Some index\<rparr>"

definition toggle_selection :: "'a grid \<Rightarrow> int \<Rightarrow> 'a grid" where
  "toggle_selection st index =
     (if index \<in> selected_indices st
      then st\<lparr>selected_indices := selected_indices st - {index},
              last_selected_index := Some index\<rparr>
      else st\<lparr>selected_indices := insert index (selected_indices st),
              last_selected_index := Some index\<rparr>)"

text \<open>
  \<^verbatim>\<open>select_range\<close>: without an anchor it is \<^verbatim>\<open>select_single\<close>; otherwise every
  index of \<^verbatim>\<open>range(start, end + 1)\<close> is added and the anchor stays.
\<close>

definition select_range :: "'a grid \<Rightarrow> int \<Rightarrow> 'a grid" where
  "select_range st index =
     (case last_selected_index st of
        None \<Rightarrow> select_single st index
      | Some anchor \<Rightarrow>
          (let start = min anchor index; end = max anchor index
           in st\<lparr>selected_indices := selected_indices st \<union> set [start .. end]\<rparr>))"

subsection \<open>Deleting the selection\<close>

text \<open>\<^verbatim>\<open>sorted(self.selected_indices, reverse=True)\<close>.\<close>

definition indices_to_delete :: "int set \<Rightarrow> int list" where
  "indices_to_delete sel = rev (sorted_list_of_set sel)"

text \<open>The removal loop: each index is popped if it is in range of the list as it is then.\<close>

fun delete_loop :: "int list \<Rightarrow> 'a list \<Rightarrow> 'a list" where
  "delete_loop [] imgs = imgs"
| "delete_loop (idx # rest) imgs =
     (if in_range idx imgs then delete_loop rest (pop_at imgs idx)
      else delete_loop rest imgs)"

definition delete_selected :: "'a grid \<Rightarrow> 'a grid" where
  "delete_selected st =
     (if selected_indices st = {} then st
      else (let st1 = save_state st
            in st1\<lparr>images := delete_loop (indices_to_delete (selected_indices st1)) (images st1),
                   selected_indices := {},
                   last_selected_index := None\<rparr>))"

subsection \<open>Parsing the dragged indices\<close>

text \<open>
  The drag payload is text: \<^verbatim>\<open>','.join(map(str, selected_indices))\<close> on the sending
  side, \<^verbatim>\<open>[int(idx) for idx in indices_str.split(',')]\<close> on the receiving side.
  \<open>split_comma\<close> is \<^verbatim>\<open>str.split(',')\<close> (the empty string gives one empty token).
\<close>

fun split_comma :: "string \<Rightarrow> string list" where
  "split_comma [] = [[]]"
| "split_comma (c # cs) =
     (if c = CHR '','' then [] # split_comma cs
      else (case split_comma cs of
              [] \<Rightarrow> [[c]]
            | w # ws \<Rightarrow> (c # w) # ws))"

text \<open>
  \<open>py_int\<close> is \<^verbatim>\<open>int(s)\<close> on a string whose characters are code points below
  256 (one \<open>char\<close> each): surrounding whitespace is skipped, one sign is allowed, and
  the rest must be decimal digits, possibly grouped by single underscores between
  digits. Anything else is a \<^verbatim>\<open>ValueError\<close>, here \<open>None\<close>. The whitespace that
  \<^verbatim>\<open>int\<close> skips is the space, the five controls from tab to carriage return, and of
  the code points from 128 on the next-line control and the no-break space (the
  separator controls 0x1C to 0x1F are not skipped). More than 4300 digits are
  refused, which is the interpreter's default limit. (Code points from 256 on, among
  which Python knows further spaces and decimal digits, are outside the type.)
\<close>

definition is_space :: "char \<Rightarrow> bool" where
  "is_space c =
     (c \<in> set [CHR '' '', CHR 0x09, CHR 0x0A, CHR 0x0B, CHR 0x0C, CHR 0x0D,
                CHR 0x85, CHR 0xA0])"

definition strip :: "string \<Rightarrow> string" where
  "strip s = rev (dropWhile is_space (rev (dropWhile is_space s)))"

definition digit_value :: "char \<Rightarrow> nat option" where
  "digit_value c = map_of (zip ''0123456789'' [0 ..< 10]) c"

text \<open>
  The digits of a literal, read left to right with the value so far; \<open>prev_digit\<close>
  tells whether the character before was a digit, which an underscore needs on its
  left, as it needs a digit on its right.
\<close>

fun digits :: "string \<Rightarrow> nat \<Rightarrow> bool \<Rightarrow> nat option" where
  "digits [] acc prev_digit = (if prev_digit then Some acc else None)"
| "digits (c # cs) acc prev_digit =
     (if c = CHR ''_'' then (if prev_digit then digits cs acc False else None)
      else (case digit_value c of
              None \<Rightarrow> None
            | Some d \<Rightarrow> digits cs (10 * acc + d) True))"

text \<open>
  The digits after the sign: their number (underscores apart, leading zeros included) is
  checked against the limit.
\<close>

definition max_str_digits :: nat where
  "max_str_digits = 4300"

definition literal :: "string \<Rightarrow> nat option" where
  "literal body =
     (case digits body 0 False of
        None \<Rightarrow> None
      | Some n \<Rightarrow>
          (if length (filter (\<lambda>c. c \<noteq> CHR ''_'') body) > max_str_digits then None
           else Some n))"

definition py_int :: "string \<Rightarrow> int option" where
  "py_int s =
     (case strip s of
        [] \<Rightarrow> None
      | c # r \<Rightarrow>
          (if c = CHR ''-'' then map_option (\<lambda>n. - int n) (literal r)
           else if c = CHR ''+'' then map_option int (literal r)
           else map_option int (literal (c # r))))"

text \<open>The list comprehension: the first token that does not parse raises.\<close>

fun parse_all :: "string list \<Rightarrow> int list option" where
  "parse_all [] = Some []"
| "parse_all (t # ts) =
     (case py_int t of
        None \<Rightarrow> None
      | Some i \<Rightarrow> (case parse_all ts of None \<Rightarrow> None | Some is \<Rightarrow> Some (i # is)))"

definition parse_indices :: "string \<Rightarrow> int list option" where
  "parse_indices indices_str = parse_all (split_comma indices_str)"

subsection \<open>Moving entries: drag and drop\<close>

text \<open>The entries to move, read at the source indices that are in range.\<close>

definition images_to_move :: "int list \<Rightarrow> 'a list \<Rightarrow> 'a list" where
  "images_to_move source_indices imgs =
     map (\<lambda>idx. imgs ! nat idx) (filter (\<lambda>idx. in_range idx imgs) source_indices)"

text \<open>
  The removal loop, with the running target: an index in range of the current list is
  popped, and the target goes down by one when that index is below the current target.
\<close>

fun remove_loop :: "int list \<Rightarrow> 'a list \<Rightarrow> int \<Rightarrow> 'a list \<times> int" where
  "remove_loop [] imgs target_index = (imgs, target_index)"
| "remove_loop (idx # rest) imgs target_index =
     (if in_range idx imgs
      then remove_loop rest (pop_at imgs idx)
             (if idx < target_index then target_index - 1 else target_index)
      else remove_loop rest imgs target_index)"

text \<open>
  The insertion loop \<^verbatim>\<open>for i, image_data in enumerate(reversed(images_to_move))\<close>:
  every entry is inserted at the same \<^verbatim>\<open>target_index\<close> (the counter \<^verbatim>\<open>i\<close> is not
  used).
\<close>

fun insert_loop :: "'a list \<Rightarrow> 'a list \<Rightarrow> int \<Rightarrow> 'a list" where
  "insert_loop [] imgs target_index = imgs"
| "insert_loop (image_data # rest) imgs target_index =
     insert_loop rest (insert_at imgs target_index image_data) target_index"

text \<open>
  \<^verbatim>\<open>handle_drop\<close>. The snapshot is saved first, inside the \<^verbatim>\<open>try\<close>; a payload that
  does not parse raises after that, and the handler only prints the error, so the state
  stays as \<^verbatim>\<open>save_state\<close> left it.
\<close>

definition handle_drop :: "'a grid \<Rightarrow> string \<Rightarrow> int \<Rightarrow> 'a grid" where
  "handle_drop st indices_str target_index =
     (let st1 = save_state st
      in case parse_indices indices_str of
           None \<Rightarrow> st1
         | Some parsed \<Rightarrow>
             (let source_indices = rev (sort parsed);
                  moved = images_to_move source_indices (images st1);
                  (remaining, target) = remove_loop source_indices (images st1) target_index;
                  imgs = insert_loop (rev moved) remaining target
              in st1\<lparr>images := imgs,
                     selected_indices := set (map (\<lambda>i. target + int i) [0 ..< length moved])\<rparr>))"

subsection \<open>Operations and reachable states\<close>

datatype 'a op =
    Add_images "'a list"
  | Append_images "'a list"
  | Undo
  | Redo
  | Clear_selection
  | Select_single int
  | Toggle_selection int
  | Select_range int
  | Delete_selected
  | Handle_drop string int

fun apply_op :: "'a grid \<Rightarrow> 'a op \<Rightarrow> 'a grid" where
  "apply_op st (Add_images new) = add_images st new"
| "apply_op st (Append_images new) = append_images st new"
| "apply_op st Undo = undo st"
| "apply_op st Redo = redo st"
| "apply_op st Clear_selection = clear_selection st"
| "apply_op st (Select_single i) = select_single st i"
| "apply_op st (Toggle_selection i) = toggle_selection st i"
| "apply_op st (Select_range i) = select_range st i"
| "apply_op st Delete_selected = delete_selected st"
| "apply_op st (Handle_drop indices_str target_index) = handle_drop st indices_str target_index"

text \<open>The states the widget can be in: the initial one, and any reached by an operation.\<close>

inductive reachable :: "'a grid \<Rightarrow> bool" where
  reachable_init: "reachable init_grid"
| reachable_step: "reachable st \<Longrightarrow> reachable (apply_op st x)"

subsection \<open>The history bound\<close>

text \<open>
  The cap is the 50 of \<^verbatim>\<open>__init__\<close>, and undo and redo snapshots together do not
  exceed it. (\<^verbatim>\<open>redo\<close> pushes to the history without looking at the cap; it is the
  sum that keeps the history short.)
\<close>

definition history_bounded :: "'a grid \<Rightarrow> bool" where
  "history_bounded st =
     (max_history st = 50 \<and>
      int (length (history st)) + int (length (redo_stack st)) \<le> max_history st)"

subsection \<open>The selection invariant\<close>

text \<open>
  Every selected index, and the anchor of the range selection when there is one, is an
  index of the current list of images.
\<close>

definition selection_valid :: "'a grid \<Rightarrow> bool" where
  "selection_valid st =
     ((\<forall>i \<in> selected_indices st. in_range i (images st)) \<and>
      (case last_selected_index st of
         None \<Rightarrow> True
       | Some anchor \<Rightarrow> in_range anchor (images st)))"


section \<open>The flipbook window: grid size and export\<close>

subsection \<open>The smallest grid for a number of images\<close>

text \<open>
  \<^verbatim>\<open>math.ceil(math.sqrt(image_count))\<close> is the least \<open>r\<close> with
  \<open>image_count \<le> r * r\<close>, found here by counting up and computed exactly. (The
  source computes it in double precision, which gives the same number for every count
  below \<open>2 ^ 52\<close>.)
\<close>

function sqrt_up :: "nat \<Rightarrow> nat \<Rightarrow> nat" where
  "sqrt_up n r = (if r * r < n then sqrt_up n (Suc r) else r)"
  by pat_completeness auto
termination
proof (relation "measure (\<lambda>(n, r). n - r)")
  show "wf (measure (\<lambda>(n, r). n - r))" by simp
next
  fix n r :: nat
  assume less: "r * r < n"
  have "r \<le> r * r" by (cases r) simp_all
  then have "r < n" using less by (rule le_less_trans)
  then show "((n, Suc r), (n, r)) \<in> measure (\<lambda>(n, r). n - r)" by simp
qed

declare sqrt_up.simps [simp del]

definition ceil_sqrt :: "nat \<Rightarrow> nat" where
  "ceil_sqrt n = sqrt_up n 0"

text \<open>
  The loop \<^verbatim>\<open>while (cols - 1) * rows >= image_count: cols -= 1\<close> on Python integers.
  It need not end for every input (it runs forever when \<open>rows = 0\<close> and
  \<open>image_count \<le> 0\<close>), so its result is optional.
\<close>

partial_function (option) reduce_cols :: "int \<Rightarrow> int \<Rightarrow> int \<Rightarrow> int option" where
  "reduce_cols cols rows image_count =
     (if (cols - 1) * rows \<ge> image_count then reduce_cols (cols - 1) rows image_count
      else Some cols)"

declare reduce_cols.simps [code]

text \<open>\<^verbatim>\<open>get_min_grid_size\<close>, as a function of \<^verbatim>\<open>len(self.image_grid.images)\<close>.\<close>

definition min_grid_for_count :: "nat \<Rightarrow> (int \<times> int) option" where
  "min_grid_for_count image_count =
     (if image_count = 0 then Some (1, 1)
      else (let rows = int (ceil_sqrt image_count)
            in map_option (\<lambda>cols. (rows, cols)) (reduce_cols rows rows (int image_count))))"

definition get_min_grid_size :: "'a list \<Rightarrow> (int \<times> int) option" where
  "get_min_grid_size imgs = min_grid_for_count (length imgs)"

subsection \<open>The grid spin boxes\<close>

text \<open>
  The two \<^verbatim>\<open>QSpinBox\<close>es of the window, as far as the code uses them: a value and
  its range. \<^verbatim>\<open>setValue\<close> keeps the value inside the range; \<^verbatim>\<open>setMinimum\<close> moves
  the lower bound, lifts the upper bound to it when needed, and brings the value back
  into the range. Both boxes start with the range 1 to 100 and the value 4.
\<close>

record spin_box =
  box_value :: int
  box_minimum :: int
  box_maximum :: int

definition bound :: "spin_box \<Rightarrow> int \<Rightarrow> int" where
  "bound sb v = (if v < box_minimum sb then box_minimum sb
                 else if v > box_maximum sb then box_maximum sb else v)"

definition setValue :: "spin_box \<Rightarrow> int \<Rightarrow> spin_box" where
  "setValue sb v = sb\<lparr>box_value := bound sb v\<rparr>"

definition setMinimum :: "spin_box \<Rightarrow> int \<Rightarrow> spin_box" where
  "setMinimum sb m =
     (let ranged = sb\<lparr>box_minimum := m,
                       box_maximum := (if m < box_maximum sb then box_maximum sb else m)\<rparr>
      in ranged\<lparr>box_value := bound ranged (box_value sb)\<rparr>)"

record window =
  columns_input :: spin_box
  rows_input :: spin_box

definition init_window :: window where
  "init_window =
     \<lparr>columns_input = \<lparr>box_value = 4, box_minimum = 1, box_maximum = 100\<rparr>,
      rows_input = \<lparr>box_value = 4, box_minimum = 1, box_maximum = 100\<rparr>\<rparr>"

text \<open>
  \<^verbatim>\<open>math.ceil(a / b)\<close>, computed exactly; a zero divisor raises
  \<^verbatim>\<open>ZeroDivisionError\<close>, which the callers below turn into \<open>None\<close>.
\<close>

definition ceil_div :: "int \<Rightarrow> int \<Rightarrow> int" where
  "ceil_div a b = - ((- a) div b)"

text \<open>
  \<^verbatim>\<open>update_grid_constraints\<close>, with the number of images. Without images both
  minimums go back to 1. Otherwise the minimums follow from the current values, and a
  value below its new minimum is raised to it; signals are blocked meanwhile.
\<close>

definition update_grid_constraints :: "nat \<Rightarrow> window \<Rightarrow> window option" where
  "update_grid_constraints image_count w =
     (if image_count = 0
      then Some (w\<lparr>columns_input := setMinimum (columns_input w) 1,
                   rows_input := setMinimum (rows_input w) 1\<rparr>)
      else (let current_cols = box_value (columns_input w);
                current_rows = box_value (rows_input w)
            in if current_cols = 0 \<or> current_rows = 0 then None
               else (let min_rows = ceil_div (int image_count) current_cols;
                         min_cols = ceil_div (int image_count) current_rows;
                         cols_box = setMinimum (columns_input w) min_cols;
                         rows_box = setMinimum (rows_input w) min_rows
                     in Some \<lparr>columns_input =
                                (if current_cols < min_cols then setValue cols_box min_cols
                                 else cols_box),
                              rows_input =
                                (if current_rows < min_rows then setValue rows_box min_rows
                                 else rows_box)\<rparr>)))"

text \<open>
  \<^verbatim>\<open>valueChanged\<close> of either box is connected to \<^verbatim>\<open>on_grid_changed\<close>, which
  updates the constraints (and then only labels). So a \<^verbatim>\<open>setValue\<close> from outside
  \<^verbatim>\<open>update_grid_constraints\<close> that changes the value runs the constraints at once.
\<close>

definition on_grid_changed :: "nat \<Rightarrow> window \<Rightarrow> window option" where
  "on_grid_changed image_count w = update_grid_constraints image_count w"

definition columns_setValue :: "nat \<Rightarrow> window \<Rightarrow> int \<Rightarrow> window option" where
  "columns_setValue image_count w v =
     (let w' = w\<lparr>columns_input := setValue (columns_input w) v\<rparr>
      in if box_value (columns_input w') \<noteq> box_value (columns_input w)
         then on_grid_changed image_count w' else Some w')"

definition rows_setValue :: "nat \<Rightarrow> window \<Rightarrow> int \<Rightarrow> window option" where
  "rows_setValue image_count w v =
     (let w' = w\<lparr>rows_input := setValue (rows_input w) v\<rparr>
      in if box_value (rows_input w') \<noteq> box_value (rows_input w)
         then on_grid_changed image_count w' else Some w')"

text \<open>
  What every caller of \<^verbatim>\<open>get_min_grid_size\<close> does with the result:
  \<^verbatim>\<open>cols, rows = self.get_min_grid_size()\<close>, then \<^verbatim>\<open>setValue(cols)\<close> on the
  columns, \<^verbatim>\<open>setValue(rows)\<close> on the rows, then \<^verbatim>\<open>update_grid_constraints()\<close>.
  \<open>requested_grid\<close> is the pair as the callers unpack it.
\<close>

definition requested_grid :: "'a list \<Rightarrow> (int \<times> int) option" where
  "requested_grid imgs =
     (case get_min_grid_size imgs of
        None \<Rightarrow> None
      | Some (cols, rows) \<Rightarrow> Some (cols, rows))"

definition apply_min_grid_size :: "'a list \<Rightarrow> window \<Rightarrow> window option" where
  "apply_min_grid_size imgs w =
     (case requested_grid imgs of
        None \<Rightarrow> None
      | Some (cols, rows) \<Rightarrow>
          (case columns_setValue (length imgs) w cols of
             None \<Rightarrow> None
           | Some w1 \<Rightarrow>
               (case rows_setValue (length imgs) w1 rows of
                  None \<Rightarrow> None
                | Some w2 \<Rightarrow> update_grid_constraints (length imgs) w2)))"

text \<open>
  The window with its image grid, and the five places where the grid size is set from
  the number of images. Adding and loading do nothing when no image was read (loading
  also when the folder has no image file, which the flag \<open>found\<close> stands for).
\<close>

record 'a app =
  image_grid :: "'a grid"
  spin_boxes :: window

definition resize_to_images :: "'a app \<Rightarrow> 'a app option" where
  "resize_to_images a =
     map_option (\<lambda>w. a\<lparr>spin_boxes := w\<rparr>)
       (apply_min_grid_size (images (image_grid a)) (spin_boxes a))"

definition app_undo :: "'a app \<Rightarrow> 'a app option" where
  "app_undo a = resize_to_images (a\<lparr>image_grid := undo (image_grid a)\<rparr>)"

definition app_redo :: "'a app \<Rightarrow> 'a app option" where
  "app_redo a = resize_to_images (a\<lparr>image_grid := redo (image_grid a)\<rparr>)"

definition delete_selected_images :: "'a app \<Rightarrow> 'a app option" where
  "delete_selected_images a =
     resize_to_images (a\<lparr>image_grid := delete_selected (image_grid a)\<rparr>)"

definition app_add_images :: "'a app \<Rightarrow> 'a list \<Rightarrow> 'a app option" where
  "app_add_images a images_data =
     (if images_data \<noteq> []
      then resize_to_images (a\<lparr>image_grid := append_images (image_grid a) images_data\<rparr>)
      else Some a)"

definition select_folder :: "'a app \<Rightarrow> bool \<Rightarrow> 'a list \<Rightarrow> 'a app option" where
  "select_folder a found images_data =
     (if \<not> found then Some a
      else resize_to_images (a\<lparr>image_grid := add_images (image_grid a) images_data\<rparr>))"

definition init_app :: "'a app" where
  "init_app = \<lparr>image_grid = init_grid, spin_boxes = init_window\<rparr>"

subsection \<open>Painting the flipbook texture\<close>

text \<open>
  A pixmap with its size; the pixel data stays abstract. What the painter is asked to do
  is recorded as a list of draw calls on a canvas.
\<close>

record 'd pixmap =
  width :: int
  height :: int
  pixels :: 'd

datatype 'd draw =
    Draw_pixmap int int "'d pixmap"
  | Draw_scaled int int "'d pixmap" int int

datatype 'c fill = Fill_transparent | Fill_color 'c

record ('c, 'd) canvas =
  canvas_width :: int
  canvas_height :: int
  background :: "'c fill"
  draws :: "'d draw list"

text \<open>
  The loop over \<^verbatim>\<open>enumerate(images)\<close> of \<^verbatim>\<open>export_flipbook\<close>: it stops at the
  first index that is not below \<^verbatim>\<open>columns * rows\<close>; \<^verbatim>\<open>//\<close> and \<^verbatim>\<open>%\<close> round
  towards minus infinity, as \<open>div\<close> and \<open>mod\<close> on \<open>int\<close> do. (With \<open>columns = 0\<close>
  the loop stops before it divides.)
\<close>

fun draw_loop :: "int \<Rightarrow> int \<Rightarrow> int \<Rightarrow> int \<Rightarrow> int \<Rightarrow> 'd pixmap list \<Rightarrow> 'd draw list" where
  "draw_loop columns rows cell_width cell_height idx [] = []"
| "draw_loop columns rows cell_width cell_height idx (p # ps) =
     (if idx \<ge> columns * rows then []
      else (let row = idx div columns;
                col = idx mod columns;
                x = col * cell_width;
                y = row * cell_height
            in (if width p \<noteq> cell_width \<or> height p \<noteq> cell_height
                then Draw_scaled x y p cell_width cell_height
                else Draw_pixmap x y p)
               # draw_loop columns rows cell_width cell_height (idx + 1) ps))"

text \<open>
  \<^verbatim>\<open>export_flipbook\<close> up to \<^verbatim>\<open>painter.end()\<close>: nothing is produced without images;
  otherwise the cell is the first pixmap's size. The rescaling of the finished texture by
  \<^verbatim>\<open>scale / 100.0\<close> is floating-point work on the pixels and is not modelled.
\<close>

definition paint_flipbook ::
    "'d pixmap list \<Rightarrow> int \<Rightarrow> int \<Rightarrow> bool \<Rightarrow> 'c \<Rightarrow> ('c, 'd) canvas option" where
  "paint_flipbook imgs columns rows transparency current_bg_color =
     (case imgs of
        [] \<Rightarrow> None
      | first_pixmap # _ \<Rightarrow>
          (let cell_width = width first_pixmap;
               cell_height = height first_pixmap
           in Some \<lparr>canvas_width = cell_width * columns,
                    canvas_height = cell_height * rows,
                    background =
                      (if transparency then Fill_transparent else Fill_color current_bg_color),
                    draws = draw_loop columns rows cell_width cell_height 0 imgs\<rparr>))"

subsection \<open>Choosing the encoder\<close>

text \<open>
  \<^verbatim>\<open>str.lower\<close> on ASCII letters (no character outside ASCII lowers to a letter of
  the extensions tested below), and \<^verbatim>\<open>str.endswith\<close>.
\<close>

definition lower_char :: "char \<Rightarrow> char" where
  "lower_char c =
     (case map_of (zip ''ABCDEFGHIJKLMNOPQRSTUVWXYZ'' ''abcdefghijklmnopqrstuvwxyz'') c of
        None \<Rightarrow> c
      | Some l \<Rightarrow> l)"

definition lower :: "string \<Rightarrow> string" where
  "lower s = map lower_char s"

definition endswith :: "string \<Rightarrow> string \<Rightarrow> bool" where
  "endswith s suffix =
     (length suffix \<le> length s \<and> drop (length s - length suffix) s = suffix)"

datatype image_format = JPEG | PNG | WEBP | BMP | TIFF | TGA

text \<open>
  The TGA branch hands the raw bytes of the image to
  \<^verbatim>\<open>Image.frombytes('RGBA', size, buffer, 'raw', 'BGRA')\<close>: every group of four bytes
  is read in the order blue, green, red, alpha and becomes one pixel (red, green, blue,
  alpha), so the first and the third byte of each pixel change places.
\<close>

fun frombytes_bgra :: "'b list \<Rightarrow> ('b \<times> 'b \<times> 'b \<times> 'b) list" where
  "frombytes_bgra (b0 # b1 # b2 # b3 # rest) = (b2, b1, b0, b3) # frombytes_bgra rest"
| "frombytes_bgra _ = []"

text \<open>
  The call that writes the file: Qt's \<^verbatim>\<open>image.save(path, format, quality)\<close> with an
  optional quality, or PIL's \<^verbatim>\<open>save\<close> of the converted pixels.
\<close>

datatype 'b save_call =
    Qt_save image_format "int option"
  | Pil_save image_format "('b \<times> 'b \<times> 'b \<times> 'b) list"

definition save_image :: "string \<Rightarrow> 'b list \<Rightarrow> 'b save_call" where
  "save_image file_path buffer =
     (let p = lower file_path
      in if endswith p ''.jpg'' \<or> endswith p ''.jpeg'' then Qt_save JPEG (Some 95)
         else if endswith p ''.png'' then Qt_save PNG None
         else if endswith p ''.webp'' then Qt_save WEBP None
         else if endswith p ''.bmp'' then Qt_save BMP None
         else if endswith p ''.tiff'' \<or> endswith p ''.tif'' then Qt_save TIFF None
         else if endswith p ''.tga'' then Pil_save TGA (frombytes_bgra buffer)
         else Qt_save PNG None)"

section \<open>Properties\<close>

subsection \<open>Snapshots\<close>

lemma save_state_last:
  assumes "0 < max_history st"
  shows "history (save_state st) \<noteq> [] \<and> last (history (save_state st)) = images st"
proof (cases "history st")
  case Nil
  with assms show ?thesis by (simp add: save_state_def Let_def)
next
  case (Cons h hs)
  then show ?thesis by (simp add: save_state_def Let_def)
qed

lemma save_state_fields:
  "images (save_state st) = images st"
  "selected_indices (save_state st) = selected_indices st"
  "last_selected_index (save_state st) = last_selected_index st"
  "redo_stack (save_state st) = []"
  "max_history (save_state st) = max_history st"
  by (simp_all add: save_state_def Let_def)

text \<open>
  C4. Appending nothing changes nothing at all. Appending a non-empty list and then
  undoing gives back the order from before the append, and redoing after that gives the
  old order followed by the appended entries (the cap on the history being at least 1,
  as the 50 of the widget is).
\<close>

theorem append_then_undo_redo:
  "append_images st [] = st \<and>
   (new \<noteq> [] \<longrightarrow> 0 < max_history st \<longrightarrow>
      images (undo (append_images st new)) = images st \<and>
      images (redo (undo (append_images st new))) = images st @ new)"
proof (intro conjI impI)
  show "append_images st [] = st" by (simp add: append_images_def)
next
  assume new: "new \<noteq> []" and cap: "0 < max_history st"
  note h = save_state_last [OF cap]
  from new h show "images (undo (append_images st new)) = images st"
    by (simp add: append_images_def undo_def Let_def)
  from new h show "images (redo (undo (append_images st new))) = images st @ new"
    by (simp add: append_images_def undo_def redo_def Let_def save_state_fields)
qed

theorem append_then_undo_redo_witness:
  "images (undo (append_images (init_grid\<lparr>images := [1::nat, 2]\<rparr>) [3])) = [1, 2] \<and>
   images (redo (undo (append_images (init_grid\<lparr>images := [1::nat, 2]\<rparr>) [3]))) = [1, 2, 3]"
  using append_then_undo_redo [of "init_grid\<lparr>images := [1::nat, 2]\<rparr>" "[3]"]
  by (simp add: init_grid_def)

subsection \<open>Deleting\<close>

text \<open>
  C8. With the entries A, B, C, D, E and the selection {1, 3}, the indices are removed in
  the order 3, 1; A, C, E remain; selection and anchor are cleared; one undo brings
  back A, B, C, D, E. This holds whatever the history, the redo stack and the anchor
  were before.
\<close>

theorem delete_example:
  "(let st = \<lparr>images = [A, B, C, D, E], selected_indices = {1, 3}, last_selected_index = a,
              history = h, redo_stack = r, max_history = 50\<rparr>;
        st' = delete_selected st
    in indices_to_delete (selected_indices st) = [3, 1] \<and>
       images st' = [A, C, E] \<and>
       selected_indices st' = {} \<and>
       last_selected_index st' = None \<and>
       images (undo st') = [A, B, C, D, E])"
proof -
  define st where "st = \<lparr>images = [A, B, C, D, E], selected_indices = {1, 3},
     last_selected_index = a, history = h, redo_stack = r, max_history = 50\<rparr>"
  have cap: "0 < max_history st" by (simp add: st_def)
  have idx: "indices_to_delete (selected_indices st) = [3, 1]"
    by (simp add: st_def indices_to_delete_def)
  have sel: "selected_indices st \<noteq> {}" by (simp add: st_def)
  have imgs: "images st = [A, B, C, D, E]" by (simp add: st_def)
  have del: "delete_loop [3, 1] [A, B, C, D, E] = [A, C, E]"
    by (simp add: in_range_def pop_at_def)
  note h = save_state_last [OF cap]
  have "images (delete_selected st) = [A, C, E]"
    using sel idx
    by (simp add: delete_selected_def Let_def save_state_fields imgs del del: delete_loop.simps)
  moreover have "selected_indices (delete_selected st) = {}"
    using sel by (simp add: delete_selected_def Let_def)
  moreover have "last_selected_index (delete_selected st) = None"
    using sel by (simp add: delete_selected_def Let_def)
  moreover have "images (undo (delete_selected st)) = [A, B, C, D, E]"
    using sel h by (simp add: delete_selected_def Let_def undo_def imgs del: delete_loop.simps)
  ultimately show ?thesis using idx unfolding st_def [symmetric] Let_def by blast
qed

subsection \<open>Moving\<close>

text \<open>
  C1, at a concrete drop. The entries at 1 and 3 of A, B, C, D, E are dropped at position
  0: the moved block starts at 0 and the selection is {0, 1}, but the block reads D, B,
  the reverse of the order B, D the two entries had.
\<close>

theorem handle_drop_reverses_block:
  "images (handle_drop (init_grid\<lparr>images := ''ABCDE''\<rparr>) ''1,3'' 0) = ''DBACE'' \<and>
   selected_indices (handle_drop (init_grid\<lparr>images := ''ABCDE''\<rparr>) ''1,3'' 0) = {0, 1}"
  by code_simp

text \<open>
  C6, at a concrete drop with an empty payload. The empty string does not parse; the
  order and the selection stay, but the snapshot has been pushed and the redo stack is
  emptied.
\<close>

theorem handle_drop_empty_payload:
  "(let st = init_grid\<lparr>images := ''AB'', redo_stack := [''BA'']\<rparr>
    in parse_indices '''' = None \<and>
       history st = [] \<and>
       history (handle_drop st '''' 0) = [''AB''] \<and>
       redo_stack (handle_drop st '''' 0) = [] \<and>
       images (handle_drop st '''' 0) = images st \<and>
       selected_indices (handle_drop st '''' 0) = selected_indices st)"
  by code_simp

subsection \<open>Grid size\<close>

lemma sqrt_up_spec:
  "r = 0 \<or> (r - 1) * (r - 1) < n \<Longrightarrow>
   n \<le> sqrt_up n r * sqrt_up n r \<and>
   (sqrt_up n r = 0 \<or> (sqrt_up n r - 1) * (sqrt_up n r - 1) < n)"
proof (induction n r rule: sqrt_up.induct)
  case (1 n r)
  show ?case
  proof (cases "r * r < n")
    case True
    then have step: "sqrt_up n r = sqrt_up n (Suc r)" by (subst sqrt_up.simps) simp
    from True have "Suc r = 0 \<or> (Suc r - 1) * (Suc r - 1) < n" by simp
    from "1.IH" [OF True this] show ?thesis by (simp only: step)
  next
    case False
    then have stop: "sqrt_up n r = r" by (subst sqrt_up.simps) simp
    from False "1.prems" show ?thesis unfolding stop by simp
  qed
qed

lemma ceil_sqrt_bounds:
  assumes "1 \<le> n"
  shows "1 \<le> ceil_sqrt n" and "n \<le> ceil_sqrt n * ceil_sqrt n"
    and "(ceil_sqrt n - 1) * (ceil_sqrt n - 1) < n"
proof -
  have s: "n \<le> ceil_sqrt n * ceil_sqrt n \<and>
      (ceil_sqrt n = 0 \<or> (ceil_sqrt n - 1) * (ceil_sqrt n - 1) < n)"
    unfolding ceil_sqrt_def by (rule sqrt_up_spec) simp
  then show le: "n \<le> ceil_sqrt n * ceil_sqrt n" by simp
  show pos: "1 \<le> ceil_sqrt n"
  proof (rule ccontr)
    assume "\<not> 1 \<le> ceil_sqrt n"
    then have "ceil_sqrt n = 0" by simp
    with le assms show False by simp
  qed
  from s pos show "(ceil_sqrt n - 1) * (ceil_sqrt n - 1) < n" by auto
qed

lemma reduce_cols_square:
  fixes r n :: int
  assumes low: "(r - 1) * (r - 1) < n" and up: "n \<le> r * r"
  shows "reduce_cols r r n = Some (if (r - 1) * r \<ge> n then r - 1 else r)"
proof (cases "(r - 1) * r \<ge> n")
  case True
  have "(r - 1 - 1) * r = (r - 1) * (r - 1) - 1" by (simp add: algebra_simps)
  with low have stop: "\<not> (r - 1 - 1) * r \<ge> n" by simp
  have "reduce_cols r r n = reduce_cols (r - 1) r n"
    using True by (subst reduce_cols.simps) simp
  also have "\<dots> = Some (r - 1)"
    using stop by (subst reduce_cols.simps) simp
  finally show ?thesis using True by simp
next
  case False
  then show ?thesis by (subst reduce_cols.simps) simp
qed

lemma min_grid_for_count_bounds:
  assumes n: "1 \<le> n"
  shows "\<exists>rows cols. min_grid_for_count n = Some (rows, cols) \<and>
         rows = int (ceil_sqrt n) \<and>
         rows * cols \<ge> int n \<and> (rows - 1) * cols < int n \<and> rows \<ge> cols"
proof -
  define r where "r = int (ceil_sqrt n)"
  note b = ceil_sqrt_bounds [OF n]
  from b(1) have pos: "1 \<le> r" by (simp add: r_def)
  from b(2) have "int n \<le> int (ceil_sqrt n * ceil_sqrt n)" by (simp only: of_nat_le_iff)
  then have up: "int n \<le> r * r" by (simp add: r_def)
  from b(1) have "int (ceil_sqrt n - 1) = r - 1" by (simp add: r_def of_nat_diff)
  moreover from b(3) have "int ((ceil_sqrt n - 1) * (ceil_sqrt n - 1)) < int n"
    by (simp only: of_nat_less_iff)
  ultimately have low: "(r - 1) * (r - 1) < int n" by simp
  have red: "reduce_cols r r (int n) = Some (if (r - 1) * r \<ge> int n then r - 1 else r)"
    using low up by (rule reduce_cols_square)
  have grid: "min_grid_for_count n = Some (r, if (r - 1) * r \<ge> int n then r - 1 else r)"
    using n by (simp add: min_grid_for_count_def Let_def r_def [symmetric] red)
  show ?thesis
  proof (cases "(r - 1) * r \<ge> int n")
    case True
    then have "int n \<le> r * (r - 1)" by (simp add: mult.commute)
    with True grid low show ?thesis by (simp add: r_def)
  next
    case False
    with grid up show ?thesis by (simp add: r_def)
  qed
qed

text \<open>
  C2. For every count of at least 1 the helper returns a pair (rows, cols) with rows the
  rounded-up square root, \<open>rows * cols \<ge> n\<close>, \<open>(rows - 1) * cols < n\<close> and
  \<open>rows \<ge> cols\<close>; in particular the loop ends. 17 gives (5, 4), 16 gives (4, 4) and 1
  gives (1, 1).
\<close>

theorem min_grid_for_count_spec:
  "(1 \<le> n \<longrightarrow>
      (\<exists>rows cols. min_grid_for_count n = Some (rows, cols) \<and>
         rows = int (ceil_sqrt n) \<and>
         rows * cols \<ge> int n \<and> (rows - 1) * cols < int n \<and> rows \<ge> cols)) \<and>
   min_grid_for_count 17 = Some (5, 4) \<and>
   min_grid_for_count 16 = Some (4, 4) \<and>
   min_grid_for_count 1 = Some (1, 1)"
proof (intro conjI impI)
  assume "1 \<le> n"
  then show "\<exists>rows cols. min_grid_for_count n = Some (rows, cols) \<and>
         rows = int (ceil_sqrt n) \<and>
         rows * cols \<ge> int n \<and> (rows - 1) * cols < int n \<and> rows \<ge> cols"
    by (rule min_grid_for_count_bounds)
next
  show "min_grid_for_count 17 = Some (5, 4)" by code_simp
  show "min_grid_for_count 16 = Some (4, 4)" by code_simp
  show "min_grid_for_count 1 = Some (1, 1)" by code_simp
qed

theorem min_grid_for_count_spec_witness:
  "\<exists>rows cols. min_grid_for_count 18 = Some (rows, cols) \<and> rows = 5 \<and>
      rows * cols \<ge> 18 \<and> (rows - 1) * cols < 18 \<and> rows \<ge> cols"
proof -
  have "ceil_sqrt 18 = 5" by code_simp
  with min_grid_for_count_spec [of 18] show ?thesis by simp
qed

subsection \<open>Painting\<close>

lemma draw_loop_length:
  "length (draw_loop columns rows cw ch idx ps) = min (length ps) (nat (columns * rows - idx))"
proof (induction ps arbitrary: idx)
  case Nil
  show ?case by simp
next
  case (Cons p ps)
  show ?case
  proof (cases "idx \<ge> columns * rows")
    case True
    then show ?thesis by simp
  next
    case False
    then have "nat (columns * rows - idx) = Suc (nat (columns * rows - (idx + 1)))" by simp
    with False Cons.IH [of "idx + 1"] show ?thesis by (simp add: Let_def)
  qed
qed

lemma draw_loop_nth:
  assumes "\<forall>p \<in> set ps. width p = cw \<and> height p = ch"
    and "k < length (draw_loop columns rows cw ch idx ps)"
  shows "draw_loop columns rows cw ch idx ps ! k =
         Draw_pixmap ((idx + int k) mod columns * cw) ((idx + int k) div columns * ch) (ps ! k)"
  using assms
proof (induction ps arbitrary: idx k)
  case Nil
  then show ?case by simp
next
  case (Cons p ps)
  from Cons.prems(2) have run: "\<not> idx \<ge> columns * rows" by (auto split: if_splits)
  from Cons.prems(1) have p: "width p = cw" "height p = ch"
    and rest: "\<forall>p \<in> set ps. width p = cw \<and> height p = ch" by simp_all
  show ?case
  proof (cases k)
    case 0
    with run p show ?thesis by (simp add: Let_def)
  next
    case (Suc j)
    with Cons.prems(2) run have "j < length (draw_loop columns rows cw ch (idx + 1) ps)"
      by (simp add: Let_def)
    from Cons.IH [OF rest this]
    have "draw_loop columns rows cw ch (idx + 1) ps ! j =
        Draw_pixmap ((idx + 1 + int j) mod columns * cw) ((idx + 1 + int j) div columns * ch)
          (ps ! j)" .
    moreover have "idx + 1 + int j = idx + int k" using Suc by simp
    ultimately show ?thesis using Suc run by (simp add: Let_def)
  qed
qed

text \<open>
  C3. When every entry has the size of the first one, the canvas is cell width times
  columns by cell height times rows, exactly the first \<open>columns * rows\<close> entries are
  drawn (all of them when there are fewer), and entry \<open>idx\<close> is drawn unscaled at
  \<open>(idx mod columns * cell_width, idx div columns * cell_height)\<close>. Four entries of
  64 by 64 on a 2 by 2 grid give a canvas of 128 by 128 with the entries at (0, 0),
  (64, 0), (0, 64) and (64, 64); a fifth entry is not drawn.
\<close>

theorem paint_flipbook_cells:
  "(imgs \<noteq> [] \<longrightarrow>
    (\<forall>p \<in> set imgs. width p = width (hd imgs) \<and> height p = height (hd imgs)) \<longrightarrow>
      (\<exists>c. paint_flipbook imgs columns rows transparency bg = Some c \<and>
           canvas_width c = width (hd imgs) * columns \<and>
           canvas_height c = height (hd imgs) * rows \<and>
           length (draws c) = min (length imgs) (nat (columns * rows)) \<and>
           (\<forall>idx < length (draws c).
              draws c ! idx =
                Draw_pixmap (int idx mod columns * width (hd imgs))
                  (int idx div columns * height (hd imgs)) (imgs ! idx)))) \<and>
   map_option (\<lambda>c. (canvas_width c, canvas_height c, draws c))
     (paint_flipbook
        [\<lparr>width = 64, height = 64, pixels = d0\<rparr>, \<lparr>width = 64, height = 64, pixels = d1\<rparr>,
         \<lparr>width = 64, height = 64, pixels = d2\<rparr>, \<lparr>width = 64, height = 64, pixels = d3\<rparr>]
        2 2 transparency bg) =
     Some (128, 128,
       [Draw_pixmap 0 0 \<lparr>width = 64, height = 64, pixels = d0\<rparr>,
        Draw_pixmap 64 0 \<lparr>width = 64, height = 64, pixels = d1\<rparr>,
        Draw_pixmap 0 64 \<lparr>width = 64, height = 64, pixels = d2\<rparr>,
        Draw_pixmap 64 64 \<lparr>width = 64, height = 64, pixels = d3\<rparr>]) \<and>
   map_option (\<lambda>c. (canvas_width c, canvas_height c, draws c))
     (paint_flipbook
        [\<lparr>width = 64, height = 64, pixels = d0\<rparr>, \<lparr>width = 64, height = 64, pixels = d1\<rparr>,
         \<lparr>width = 64, height = 64, pixels = d2\<rparr>, \<lparr>width = 64, height = 64, pixels = d3\<rparr>,
         \<lparr>width = 64, height = 64, pixels = d4\<rparr>]
        2 2 transparency bg) =
     Some (128, 128,
       [Draw_pixmap 0 0 \<lparr>width = 64, height = 64, pixels = d0\<rparr>,
        Draw_pixmap 64 0 \<lparr>width = 64, height = 64, pixels = d1\<rparr>,
        Draw_pixmap 0 64 \<lparr>width = 64, height = 64, pixels = d2\<rparr>,
        Draw_pixmap 64 64 \<lparr>width = 64, height = 64, pixels = d3\<rparr>])"
proof (intro conjI impI)
  assume ne: "imgs \<noteq> []"
    and same: "\<forall>p \<in> set imgs. width p = width (hd imgs) \<and> height p = height (hd imgs)"
  let ?cw = "width (hd imgs)" and ?ch = "height (hd imgs)"
  let ?ds = "draw_loop columns rows ?cw ?ch 0 imgs"
  from ne obtain first rest where imgs: "imgs = first # rest" by (cases imgs) auto
  have paint: "paint_flipbook imgs columns rows transparency bg =
      Some \<lparr>canvas_width = ?cw * columns, canvas_height = ?ch * rows,
            background = (if transparency then Fill_transparent else Fill_color bg),
            draws = ?ds\<rparr>"
    by (simp add: imgs paint_flipbook_def Let_def del: draw_loop.simps)
  have len: "length ?ds = min (length imgs) (nat (columns * rows))"
    by (simp add: draw_loop_length)
  have nth: "\<forall>idx < length ?ds.
      ?ds ! idx = Draw_pixmap (int idx mod columns * ?cw) (int idx div columns * ?ch) (imgs ! idx)"
    using draw_loop_nth [OF same, of _ columns rows 0] by simp
  from paint len nth
  show "\<exists>c. paint_flipbook imgs columns rows transparency bg = Some c \<and>
           canvas_width c = width (hd imgs) * columns \<and>
           canvas_height c = height (hd imgs) * rows \<and>
           length (draws c) = min (length imgs) (nat (columns * rows)) \<and>
           (\<forall>idx < length (draws c).
              draws c ! idx =
                Draw_pixmap (int idx mod columns * width (hd imgs))
                  (int idx div columns * height (hd imgs)) (imgs ! idx))"
    by simp
qed (simp_all add: paint_flipbook_def Let_def)

theorem paint_flipbook_cells_witness:
  "\<exists>c. paint_flipbook (replicate 5 \<lparr>width = 64, height = 64, pixels = ()\<rparr>) 2 2 True () = Some c \<and>
       canvas_width c = 128 \<and> canvas_height c = 128 \<and> length (draws c) = 4 \<and>
       draws c ! 3 = Draw_pixmap 64 64 \<lparr>width = 64, height = 64, pixels = ()\<rparr>"
proof -
  let ?imgs = "replicate 5 \<lparr>width = 64, height = 64, pixels = ()\<rparr>"
  have ne: "?imgs \<noteq> []" by simp
  have same: "\<forall>p \<in> set ?imgs. width p = width (hd ?imgs) \<and> height p = height (hd ?imgs)"
    by (simp add: numeral_eq_Suc)
  from paint_flipbook_cells [of ?imgs 2 2 True "()", THEN conjunct1, THEN mp, OF ne,
      THEN mp, OF same]
  obtain c where c: "paint_flipbook ?imgs 2 2 True () = Some c"
    "canvas_width c = width (hd ?imgs) * 2" "canvas_height c = height (hd ?imgs) * 2"
    "length (draws c) = min (length ?imgs) (nat (2 * 2))"
    "\<forall>idx < length (draws c). draws c ! idx =
        Draw_pixmap (int idx mod 2 * width (hd ?imgs)) (int idx div 2 * height (hd ?imgs))
          (?imgs ! idx)"
    by blast
  from c(4) have len: "length (draws c) = 4" by simp
  with c(5) have "draws c ! 3 =
      Draw_pixmap (int 3 mod 2 * width (hd ?imgs)) (int 3 div 2 * height (hd ?imgs)) (?imgs ! 3)"
    by simp
  then have "draws c ! 3 = Draw_pixmap 64 64 \<lparr>width = 64, height = 64, pixels = ()\<rparr>"
    by (simp add: numeral_eq_Suc)
  with c(1,2,3) len show ?thesis by (simp add: numeral_eq_Suc)
qed

subsection \<open>Encoding\<close>

lemma lower_extension:
  "lower ''.jpg'' = ''.jpg''" "lower ''.jpeg'' = ''.jpeg''" "lower ''.tga'' = ''.tga''"
  by (simp_all add: lower_def lower_char_def)

lemma endswith_lower:
  assumes "endswith s suffix"
  shows "endswith (lower s) (lower suffix)"
proof -
  from assms have "length suffix \<le> length s"
    and "drop (length s - length suffix) s = suffix"
    by (simp_all add: endswith_def)
  then have "drop (length s - length suffix) (map lower_char s) = map lower_char suffix"
    by (simp add: drop_map)
  with \<open>length suffix \<le> length s\<close> show ?thesis by (simp add: endswith_def lower_def)
qed

lemma endswith_shorter:
  assumes a: "endswith s a" and b: "endswith s b" and le: "length b \<le> length a"
  shows "endswith a b"
proof -
  from a have la: "length a \<le> length s" and da: "drop (length s - length a) s = a"
    by (simp_all add: endswith_def)
  from b have db: "drop (length s - length b) s = b" by (simp add: endswith_def)
  have "drop (length a - length b) a = drop (length a - length b) (drop (length s - length a) s)"
    by (simp only: da)
  also have "\<dots> = drop (length a - length b + (length s - length a)) s" by (rule drop_drop)
  also from la le have "length a - length b + (length s - length a) = length s - length b"
    by arith
  finally show ?thesis using le db by (simp add: endswith_def)
qed

lemma extension_unique:
  assumes e: "e \<in> set [''.jpg'', ''.jpeg'', ''.png'', ''.webp'', ''.bmp'', ''.tiff'', ''.tif'', ''.tga'']"
    and e': "e' \<in> set [''.jpg'', ''.jpeg'', ''.png'', ''.webp'', ''.bmp'', ''.tiff'', ''.tif'', ''.tga'']"
    and s: "endswith s e" "endswith s e'"
  shows "e' = e"
proof -
  have one: "endswith e e' \<or> endswith e' e"
  proof (cases "length e' \<le> length e")
    case True
    with s have "endswith e e'" by (rule endswith_shorter)
    then show ?thesis ..
  next
    case False
    then have "length e \<le> length e'" by simp
    with s(2,1) have "endswith e' e" by (rule endswith_shorter)
    then show ?thesis ..
  qed
  have "\<forall>a \<in> set [''.jpg'', ''.jpeg'', ''.png'', ''.webp'', ''.bmp'', ''.tiff'', ''.tif'', ''.tga''].
        \<forall>b \<in> set [''.jpg'', ''.jpeg'', ''.png'', ''.webp'', ''.bmp'', ''.tiff'', ''.tif'', ''.tga''].
          endswith a b \<longrightarrow> a = b"
    by (simp add: endswith_def)
  with e e' one show ?thesis by blast
qed

lemma extension_only:
  assumes "e \<in> set [''.jpg'', ''.jpeg'', ''.png'', ''.webp'', ''.bmp'', ''.tiff'', ''.tif'', ''.tga'']"
    and "endswith s e"
    and "e' \<in> set [''.jpg'', ''.jpeg'', ''.png'', ''.webp'', ''.bmp'', ''.tiff'', ''.tif'', ''.tga'']"
  shows "endswith s e' \<longleftrightarrow> e' = e"
  using assms extension_unique [of e e' s] by auto

lemma frombytes_bgra_length: "length (frombytes_bgra buf) = length buf div 4"
  by (induction buf rule: frombytes_bgra.induct) simp_all

lemma frombytes_bgra_nth:
  assumes "k < length buf div 4"
  shows "frombytes_bgra buf ! k =
         (buf ! (4 * k + 2), buf ! (4 * k + 1), buf ! (4 * k), buf ! (4 * k + 3))"
  using assms
proof (induction buf arbitrary: k rule: frombytes_bgra.induct)
  case (1 b0 b1 b2 b3 rest)
  show ?case
  proof (cases k)
    case 0
    then show ?thesis by simp
  next
    case (Suc j)
    with "1.prems" have "j < length rest div 4" by simp
    from "1.IH" [OF this] Suc show ?thesis by (simp add: numeral_eq_Suc)
  qed
qed simp_all

text \<open>
  C9. The encoder follows the extension of the lower-cased path, and each known
  extension has its own format: \<^verbatim>\<open>.jpg\<close> and \<^verbatim>\<open>.jpeg\<close> give JPEG at quality 95,
  \<^verbatim>\<open>.png\<close> PNG, \<^verbatim>\<open>.webp\<close> WebP, \<^verbatim>\<open>.bmp\<close> BMP, \<^verbatim>\<open>.tiff\<close> and \<^verbatim>\<open>.tif\<close>
  TIFF, all three without a quality. \<^verbatim>\<open>.tga\<close> gives the TGA writer on the pixels of the
  whole buffer, one for every four bytes, each with the first and the third byte of its
  group exchanged (the RGBA/BGRA byte-order conversion). A path with none of these
  extensions gives PNG.
\<close>

theorem save_image_by_extension:
  "(endswith file_path ''.jpg'' \<or> endswith file_path ''.jpeg'' \<or>
    endswith (lower file_path) ''.jpg'' \<or> endswith (lower file_path) ''.jpeg''
      \<longrightarrow> save_image file_path buffer = Qt_save JPEG (Some 95)) \<and>
   (endswith (lower file_path) ''.png''
      \<longrightarrow> save_image file_path buffer = Qt_save PNG None) \<and>
   (endswith (lower file_path) ''.webp''
      \<longrightarrow> save_image file_path buffer = Qt_save WEBP None) \<and>
   (endswith (lower file_path) ''.bmp''
      \<longrightarrow> save_image file_path buffer = Qt_save BMP None) \<and>
   (endswith (lower file_path) ''.tiff'' \<or> endswith (lower file_path) ''.tif''
      \<longrightarrow> save_image file_path buffer = Qt_save TIFF None) \<and>
   (endswith file_path ''.tga'' \<or> endswith (lower file_path) ''.tga''
      \<longrightarrow> (\<exists>px. save_image file_path buffer = Pil_save TGA px \<and>
             length px = length buffer div 4 \<and>
             (\<forall>k < length buffer div 4.
                px ! k = (buffer ! (4 * k + 2), buffer ! (4 * k + 1),
                          buffer ! (4 * k), buffer ! (4 * k + 3))))) \<and>
   (\<not> (\<exists>ext \<in> set [''.jpg'', ''.jpeg'', ''.png'', ''.webp'', ''.bmp'', ''.tiff'', ''.tif'', ''.tga''].
          endswith (lower file_path) ext)
      \<longrightarrow> save_image file_path buffer = Qt_save PNG None)"
proof -
  let ?p = "lower file_path"
  have only: "endswith ?p e' \<longleftrightarrow> e' = e"
    if "endswith ?p e"
      and "e \<in> set [''.jpg'', ''.jpeg'', ''.png'', ''.webp'', ''.bmp'', ''.tiff'', ''.tif'', ''.tga'']"
      and "e' \<in> set [''.jpg'', ''.jpeg'', ''.png'', ''.webp'', ''.bmp'', ''.tiff'', ''.tif'', ''.tga'']"
    for e e'
    using that(2,1,3) by (rule extension_only)
  have jpeg: "save_image file_path buffer = Qt_save JPEG (Some 95)"
    if "endswith file_path ''.jpg'' \<or> endswith file_path ''.jpeg'' \<or>
        endswith ?p ''.jpg'' \<or> endswith ?p ''.jpeg''"
  proof -
    from that have "endswith ?p ''.jpg'' \<or> endswith ?p ''.jpeg''"
      using endswith_lower [of file_path "''.jpg''"] endswith_lower [of file_path "''.jpeg''"]
      by (auto simp: lower_extension)
    then show ?thesis by (auto simp: save_image_def Let_def)
  qed
  have png: "save_image file_path buffer = Qt_save PNG None" if "endswith ?p ''.png''"
    using that only [OF that] by (simp add: save_image_def Let_def)
  have webp: "save_image file_path buffer = Qt_save WEBP None" if "endswith ?p ''.webp''"
    using that only [OF that] by (simp add: save_image_def Let_def)
  have bmp: "save_image file_path buffer = Qt_save BMP None" if "endswith ?p ''.bmp''"
    using that only [OF that] by (simp add: save_image_def Let_def)
  have tiff: "save_image file_path buffer = Qt_save TIFF None"
    if "endswith ?p ''.tiff'' \<or> endswith ?p ''.tif''"
    using that
  proof
    assume t: "endswith ?p ''.tiff''"
    with only [OF t] show ?thesis by (simp add: save_image_def Let_def)
  next
    assume t: "endswith ?p ''.tif''"
    with only [OF t] show ?thesis by (simp add: save_image_def Let_def)
  qed
  have tga: "\<exists>px. save_image file_path buffer = Pil_save TGA px \<and>
             length px = length buffer div 4 \<and>
             (\<forall>k < length buffer div 4.
                px ! k = (buffer ! (4 * k + 2), buffer ! (4 * k + 1),
                          buffer ! (4 * k), buffer ! (4 * k + 3)))"
    if "endswith file_path ''.tga'' \<or> endswith ?p ''.tga''"
  proof -
    from that have t: "endswith ?p ''.tga''"
      using endswith_lower [of file_path "''.tga''"] by (auto simp: lower_extension)
    with only [OF t] have "save_image file_path buffer = Pil_save TGA (frombytes_bgra buffer)"
      by (simp add: save_image_def Let_def)
    then show ?thesis by (simp add: frombytes_bgra_length frombytes_bgra_nth)
  qed
  have fallback: "save_image file_path buffer = Qt_save PNG None"
    if "\<not> (\<exists>ext \<in> set [''.jpg'', ''.jpeg'', ''.png'', ''.webp'', ''.bmp'', ''.tiff'', ''.tif'', ''.tga''].
          endswith ?p ext)"
    using that by (simp add: save_image_def Let_def)
  from jpeg png webp bmp tiff tga fallback show ?thesis by blast
qed

theorem save_image_by_extension_witness:
  "save_image ''Out.JPG'' [1 :: nat, 2, 3, 4, 5, 6, 7, 8] = Qt_save JPEG (Some 95) \<and>
   save_image ''a.png'' [1 :: nat, 2, 3, 4, 5, 6, 7, 8] = Qt_save PNG None \<and>
   save_image ''a.webp'' [1 :: nat, 2, 3, 4, 5, 6, 7, 8] = Qt_save WEBP None \<and>
   save_image ''a.bmp'' [1 :: nat, 2, 3, 4, 5, 6, 7, 8] = Qt_save BMP None \<and>
   save_image ''a.TIF'' [1 :: nat, 2, 3, 4, 5, 6, 7, 8] = Qt_save TIFF None \<and>
   (\<exists>px. save_image ''flip.tga'' [1 :: nat, 2, 3, 4, 5, 6, 7, 8] = Pil_save TGA px \<and>
         length px = 2 \<and> px ! 0 = (3, 2, 1, 4) \<and> px ! 1 = (7, 6, 5, 8)) \<and>
   save_image ''flipbook.gif'' [1 :: nat, 2, 3, 4, 5, 6, 7, 8] = Qt_save PNG None"
proof -
  let ?buf = "[1 :: nat, 2, 3, 4, 5, 6, 7, 8]"
  have j: "endswith (lower ''Out.JPG'') ''.jpg''" by code_simp
  have p: "endswith (lower ''a.png'') ''.png''" by code_simp
  have w: "endswith (lower ''a.webp'') ''.webp''" by code_simp
  have b: "endswith (lower ''a.bmp'') ''.bmp''" by code_simp
  have t: "endswith (lower ''a.TIF'') ''.tif''" by code_simp
  have a: "endswith ''flip.tga'' ''.tga''" by code_simp
  have g: "\<not> (\<exists>ext \<in> set [''.jpg'', ''.jpeg'', ''.png'', ''.webp'', ''.bmp'', ''.tiff'', ''.tif'', ''.tga''].
          endswith (lower ''flipbook.gif'') ext)" by code_simp
  note inst = save_image_by_extension [where buffer = ?buf]
  from j inst [of "''Out.JPG''", THEN conjunct1]
  have r1: "save_image ''Out.JPG'' ?buf = Qt_save JPEG (Some 95)" by simp
  from p inst [of "''a.png''", THEN conjunct2, THEN conjunct1]
  have r2: "save_image ''a.png'' ?buf = Qt_save PNG None" by (rule rev_mp)
  from w inst [of "''a.webp''", THEN conjunct2, THEN conjunct2, THEN conjunct1]
  have r3: "save_image ''a.webp'' ?buf = Qt_save WEBP None" by (rule rev_mp)
  from b inst [of "''a.bmp''", THEN conjunct2, THEN conjunct2, THEN conjunct2, THEN conjunct1]
  have r4: "save_image ''a.bmp'' ?buf = Qt_save BMP None" by (rule rev_mp)
  from t inst [of "''a.TIF''", THEN conjunct2, THEN conjunct2, THEN conjunct2, THEN conjunct2,
      THEN conjunct1]
  have r5: "save_image ''a.TIF'' ?buf = Qt_save TIFF None" by simp
  from a inst [of "''flip.tga''", THEN conjunct2, THEN conjunct2, THEN conjunct2,
      THEN conjunct2, THEN conjunct2, THEN conjunct1]
  obtain px where px: "save_image ''flip.tga'' ?buf = Pil_save TGA px"
    "length px = length ?buf div 4"
    "\<forall>k < length ?buf div 4.
        px ! k = (?buf ! (4 * k + 2), ?buf ! (4 * k + 1), ?buf ! (4 * k), ?buf ! (4 * k + 3))"
    by blast
  from px(2) have len: "length px = 2" by simp
  from px(3) have "px ! 0 = (?buf ! (4 * 0 + 2), ?buf ! (4 * 0 + 1), ?buf ! (4 * 0), ?buf ! (4 * 0 + 3))"
    by simp
  then have p0: "px ! 0 = (3, 2, 1, 4)" by simp
  from px(3) have "px ! 1 = (?buf ! (4 * 1 + 2), ?buf ! (4 * 1 + 1), ?buf ! (4 * 1), ?buf ! (4 * 1 + 3))"
    by simp
  then have p1: "px ! 1 = (7, 6, 5, 8)" by simp
  from px(1) len p0 p1
  have r6: "\<exists>px. save_image ''flip.tga'' ?buf = Pil_save TGA px \<and>
         length px = 2 \<and> px ! 0 = (3, 2, 1, 4) \<and> px ! 1 = (7, 6, 5, 8)" by blast
  from g inst [of "''flipbook.gif''", THEN conjunct2, THEN conjunct2, THEN conjunct2,
      THEN conjunct2, THEN conjunct2, THEN conjunct2]
  have r7: "save_image ''flipbook.gif'' ?buf = Qt_save PNG None" by (rule rev_mp)
  from r1 r2 r3 r4 r5 r6 r7 show ?thesis by (intro conjI)
qed

subsection \<open>History bound\<close>

lemma save_state_bounded:
  assumes "history_bounded st"
  shows "history_bounded (save_state st)"
  using assms by (auto simp: history_bounded_def save_state_def Let_def)

lemma undo_bounded:
  assumes "history_bounded st"
  shows "history_bounded (undo st)"
proof (cases "history st" rule: rev_cases)
  case Nil
  with assms show ?thesis by (simp add: undo_def)
next
  case (snoc hs h)
  with assms show ?thesis by (simp add: history_bounded_def undo_def)
qed

lemma redo_bounded:
  assumes "history_bounded st"
  shows "history_bounded (redo st)"
proof (cases "redo_stack st" rule: rev_cases)
  case Nil
  with assms show ?thesis by (simp add: redo_def)
next
  case (snoc rs r)
  with assms show ?thesis by (simp add: history_bounded_def redo_def)
qed

lemma apply_op_bounded:
  assumes "history_bounded st"
  shows "history_bounded (apply_op st x)"
proof (cases x)
  case (Add_images new)
  with assms show ?thesis by (simp add: history_bounded_def add_images_def)
next
  case (Append_images new)
  with save_state_bounded [OF assms] assms show ?thesis
    by (simp add: history_bounded_def append_images_def Let_def)
next
  case Undo
  with undo_bounded [OF assms] show ?thesis by simp
next
  case Redo
  with redo_bounded [OF assms] show ?thesis by simp
next
  case Clear_selection
  with assms show ?thesis by (simp add: history_bounded_def clear_selection_def)
next
  case (Select_single i)
  with assms show ?thesis by (simp add: history_bounded_def select_single_def)
next
  case (Toggle_selection i)
  with assms show ?thesis by (simp add: history_bounded_def toggle_selection_def)
next
  case (Select_range i)
  with assms show ?thesis
    by (simp add: history_bounded_def select_range_def select_single_def Let_def
        split: option.split)
next
  case Delete_selected
  with save_state_bounded [OF assms] assms show ?thesis
    by (simp add: history_bounded_def delete_selected_def Let_def)
next
  case (Handle_drop indices_str target_index)
  with save_state_bounded [OF assms] show ?thesis
    by (simp add: history_bounded_def handle_drop_def Let_def split: option.split prod.split)
qed

lemma reachable_bounded:
  assumes "reachable st"
  shows "history_bounded st"
  using assms
proof (induction rule: reachable.induct)
  case reachable_init
  show ?case by (simp add: history_bounded_def init_grid_def)
next
  case (reachable_step st x)
  then show ?case by (simp add: apply_op_bounded)
qed

text \<open>
  C5. In every reachable state the cap is 50 and the undo history holds at most that
  many snapshots. A push onto a full history drops the oldest snapshot and keeps the
  new one as the last; a push onto a history below the cap only appends.
\<close>

theorem history_within_cap:
  "(reachable st \<longrightarrow> max_history st = 50 \<and> int (length (history st)) \<le> max_history st) \<and>
   (0 < max_history s \<longrightarrow> int (length (history s)) = max_history s \<longrightarrow>
      history (save_state s) = tl (history s) @ [images s]) \<and>
   (int (length (history s)) < max_history s \<longrightarrow>
      history (save_state s) = history s @ [images s])"
proof (intro conjI impI)
  assume "reachable st"
  then have "history_bounded st" by (rule reachable_bounded)
  then show "max_history st = 50" and "int (length (history st)) \<le> max_history st"
    by (simp_all add: history_bounded_def)
next
  assume "0 < max_history s" and "int (length (history s)) = max_history s"
  then have "history s \<noteq> []" by auto
  with \<open>int (length (history s)) = max_history s\<close>
  show "history (save_state s) = tl (history s) @ [images s]"
    by (simp add: save_state_def Let_def)
next
  assume "int (length (history s)) < max_history s"
  then show "history (save_state s) = history s @ [images s]"
    by (simp add: save_state_def Let_def)
qed

theorem history_within_cap_witness:
  "int (length (history (apply_op (init_grid :: nat grid) (Append_images [7])))) \<le> 50 \<and>
   history (save_state ((init_grid :: nat grid)\<lparr>images := [1], history := replicate 50 [0]\<rparr>)) =
     replicate 49 [0] @ [[1]] \<and>
   history (save_state ((init_grid :: nat grid)\<lparr>images := [1]\<rparr>)) = [[1]]"
proof -
  let ?st = "apply_op (init_grid :: nat grid) (Append_images [7])"
  let ?full = "(init_grid :: nat grid)\<lparr>images := [1], history := replicate 50 [0]\<rparr>"
  let ?fresh = "(init_grid :: nat grid)\<lparr>images := [1]\<rparr>"
  have r: "reachable ?st" by (rule reachable_step [OF reachable_init])
  have a: "0 < max_history ?full" "int (length (history ?full)) = max_history ?full"
    by (simp_all add: init_grid_def)
  have b: "int (length (history ?fresh)) < max_history ?fresh" by (simp add: init_grid_def)
  from history_within_cap [of ?st ?full] r a
  have "int (length (history ?st)) \<le> 50"
    and "history (save_state ?full) = tl (history ?full) @ [images ?full]" by simp_all
  moreover from history_within_cap [of ?st ?fresh] b
  have "history (save_state ?fresh) = history ?fresh @ [images ?fresh]" by blast
  ultimately show ?thesis by (simp add: init_grid_def)
qed

subsection \<open>Selection\<close>










lemma selection_valid_cleared:
  assumes "selected_indices st' = {}" and "last_selected_index st' = None"
  shows "selection_valid st'"
  using assms by (simp add: selection_valid_def)




subsection \<open>Spin boxes\<close>

lemma ceil_div_le:
  assumes "0 < b"
  shows "ceil_div a b \<le> k \<longleftrightarrow> a \<le> k * b"
proof -
  from assms have "b \<noteq> 0" by simp
  then have shift: "(k * b + - a) div b = k + (- a) div b" by (rule div_mult_self3)
  have "ceil_div a b \<le> k \<longleftrightarrow> 0 \<le> k + (- a) div b" by (auto simp: ceil_div_def)
  also have "\<dots> \<longleftrightarrow> 0 \<le> (k * b + - a) div b" by (simp only: shift)
  also have "\<dots> \<longleftrightarrow> 0 \<le> k * b + - a"
    using assms by (rule pos_imp_zdiv_nonneg_iff)
  finally show ?thesis by auto
qed

lemma update_grid_constraints_keeps:
  assumes n: "0 < n" and C: "1 \<le> C" and R: "1 \<le> R" and fit: "int n \<le> C * R"
    and cv: "box_value (columns_input w) = C" and rv: "box_value (rows_input w) = R"
    and cm: "C \<le> box_maximum (columns_input w)" and rm: "R \<le> box_maximum (rows_input w)"
  shows "\<exists>w'. update_grid_constraints n w = Some w' \<and>
           box_value (columns_input w') = C \<and> box_value (rows_input w') = R \<and>
           box_maximum (columns_input w') = box_maximum (columns_input w) \<and>
           box_maximum (rows_input w') = box_maximum (rows_input w) \<and>
           box_minimum (columns_input w') = ceil_div (int n) R \<and>
           box_minimum (rows_input w') = ceil_div (int n) C"
proof -
  from R fit have mc: "ceil_div (int n) R \<le> C" by (simp add: ceil_div_le)
  from C fit have mr: "ceil_div (int n) C \<le> R" by (simp add: ceil_div_le mult.commute)
  from n C R cv rv mc mr cm rm show ?thesis
    by (simp add: update_grid_constraints_def Let_def setMinimum_def bound_def)
qed

lemma apply_min_grid_size_exact:
  assumes req: "requested_grid imgs = Some (C, R)"
    and n: "0 < length imgs" and C: "1 \<le> C" and R: "1 \<le> R"
    and fit: "int (length imgs) \<le> C * R"
    and crange: "box_minimum (columns_input w) \<le> C" "C \<le> box_maximum (columns_input w)"
    and rrange: "box_minimum (rows_input w) \<le> R" "R \<le> box_maximum (rows_input w)"
    and r0: "box_value (rows_input w) \<le> box_maximum (rows_input w)"
    and fit0: "int (length imgs) \<le> C * box_value (rows_input w)"
  shows "\<exists>w'. apply_min_grid_size imgs w = Some w' \<and>
           box_value (columns_input w') = C \<and> box_value (rows_input w') = R"
proof -
  let ?n = "length imgs"
  let ?r0 = "box_value (rows_input w)"
  have r0pos: "1 \<le> ?r0"
  proof (rule ccontr)
    assume "\<not> 1 \<le> ?r0"
    then have "?r0 \<le> 0" by simp
    with C have "C * ?r0 \<le> 0" by (simp add: mult_nonneg_nonpos)
    with fit0 n show False by simp
  qed
  \<comment> \<open>the columns\<close>
  let ?wc = "w\<lparr>columns_input := setValue (columns_input w) C\<rparr>"
  have wc: "box_value (columns_input ?wc) = C" "box_value (rows_input ?wc) = ?r0"
    "box_maximum (columns_input ?wc) = box_maximum (columns_input w)"
    "box_maximum (rows_input ?wc) = box_maximum (rows_input w)"
    "box_minimum (rows_input ?wc) = box_minimum (rows_input w)"
    using crange by (simp_all add: setValue_def bound_def)
  have "\<exists>w1. columns_setValue ?n w C = Some w1 \<and>
      box_value (columns_input w1) = C \<and> box_value (rows_input w1) = ?r0 \<and>
      box_maximum (columns_input w1) = box_maximum (columns_input w) \<and>
      box_maximum (rows_input w1) = box_maximum (rows_input w) \<and>
      box_minimum (rows_input w1) \<le> R"
  proof (cases "box_value (columns_input ?wc) \<noteq> box_value (columns_input w)")
    case False
    with wc rrange(1) show ?thesis by (simp add: columns_setValue_def Let_def)
  next
    case True
    from C fit have "ceil_div (int ?n) C \<le> R" by (simp add: ceil_div_le mult.commute)
    with update_grid_constraints_keeps [OF n C r0pos fit0 wc(1) wc(2)] crange(2) r0 wc True
    show ?thesis by (auto simp: columns_setValue_def Let_def on_grid_changed_def)
  qed
  then obtain w1 where w1: "columns_setValue ?n w C = Some w1"
    "box_value (columns_input w1) = C" "box_value (rows_input w1) = ?r0"
    "box_maximum (columns_input w1) = box_maximum (columns_input w)"
    "box_maximum (rows_input w1) = box_maximum (rows_input w)"
    "box_minimum (rows_input w1) \<le> R" by blast
  \<comment> \<open>the rows\<close>
  let ?wr = "w1\<lparr>rows_input := setValue (rows_input w1) R\<rparr>"
  have wr: "box_value (columns_input ?wr) = C" "box_value (rows_input ?wr) = R"
    "box_maximum (columns_input ?wr) = box_maximum (columns_input w)"
    "box_maximum (rows_input ?wr) = box_maximum (rows_input w)"
    using w1 rrange(2) by (simp_all add: setValue_def bound_def)
  have "\<exists>w2. rows_setValue ?n w1 R = Some w2 \<and>
      box_value (columns_input w2) = C \<and> box_value (rows_input w2) = R \<and>
      box_maximum (columns_input w2) = box_maximum (columns_input w) \<and>
      box_maximum (rows_input w2) = box_maximum (rows_input w)"
  proof (cases "box_value (rows_input ?wr) \<noteq> box_value (rows_input w1)")
    case False
    with wr show ?thesis by (simp add: rows_setValue_def Let_def)
  next
    case True
    with update_grid_constraints_keeps [OF n C R fit wr(1) wr(2)] crange(2) rrange(2) wr
    show ?thesis by (auto simp: rows_setValue_def Let_def on_grid_changed_def)
  qed
  then obtain w2 where w2: "rows_setValue ?n w1 R = Some w2"
    "box_value (columns_input w2) = C" "box_value (rows_input w2) = R"
    "box_maximum (columns_input w2) = box_maximum (columns_input w)"
    "box_maximum (rows_input w2) = box_maximum (rows_input w)" by blast
  \<comment> \<open>the last update of the constraints\<close>
  from update_grid_constraints_keeps [OF n C R fit w2(2) w2(3)] crange(2) rrange(2) w2
  obtain w3 where "update_grid_constraints ?n w2 = Some w3"
    "box_value (columns_input w3) = C" "box_value (rows_input w3) = R" by auto
  with req w1(1) w2(1) show ?thesis by (simp add: apply_min_grid_size_def)
qed

text \<open>
  What the callers ask for, and when the boxes end with it. Every caller takes the first
  component of the helper's pair, the rounded-up square root that the helper calls rows,
  as the number of columns, and the second as the number of rows; so the columns asked
  for are never fewer than the rows, and 17 images ask for 5 columns and 4 rows. The
  boxes hold exactly these values afterwards when both lie within the boxes' ranges and
  the columns asked for, times the rows shown before, hold all the images.
\<close>

lemma requested_grid_swapped:
  "(1 \<le> length imgs \<longrightarrow>
      (\<exists>cols rows. requested_grid imgs = Some (cols, rows) \<and>
         get_min_grid_size imgs = Some (cols, rows) \<and>
         cols = int (ceil_sqrt (length imgs)) \<and> cols \<ge> rows \<and>
         (box_minimum (columns_input w) \<le> cols \<and> cols \<le> box_maximum (columns_input w) \<and>
          box_minimum (rows_input w) \<le> rows \<and> rows \<le> box_maximum (rows_input w) \<and>
          box_value (rows_input w) \<le> box_maximum (rows_input w) \<and>
          int (length imgs) \<le> cols * box_value (rows_input w) \<longrightarrow>
            (\<exists>w'. apply_min_grid_size imgs w = Some w' \<and>
               box_value (columns_input w') = cols \<and> box_value (rows_input w') = rows)))) \<and>
   requested_grid (replicate 17 x) = Some (5, 4)"
proof (intro conjI impI)
  assume n: "1 \<le> length imgs"
  from min_grid_for_count_bounds [OF n] obtain C R where
    g: "get_min_grid_size imgs = Some (C, R)" and C: "C = int (ceil_sqrt (length imgs))"
    and fit: "int (length imgs) \<le> C * R" and ge: "R \<le> C"
    by (auto simp: get_min_grid_size_def)
  from g have req: "requested_grid imgs = Some (C, R)" by (simp add: requested_grid_def)
  from ceil_sqrt_bounds(1) [OF n] C have Cpos: "1 \<le> C" by simp
  have Rpos: "1 \<le> R"
  proof (rule ccontr)
    assume "\<not> 1 \<le> R"
    then have "R \<le> 0" by simp
    with Cpos have "C * R \<le> 0" by (simp add: mult_nonneg_nonpos)
    with fit n show False by simp
  qed
  have applied: "\<exists>w'. apply_min_grid_size imgs w = Some w' \<and>
      box_value (columns_input w') = C \<and> box_value (rows_input w') = R"
    if "box_minimum (columns_input w) \<le> C \<and> C \<le> box_maximum (columns_input w) \<and>
        box_minimum (rows_input w) \<le> R \<and> R \<le> box_maximum (rows_input w) \<and>
        box_value (rows_input w) \<le> box_maximum (rows_input w) \<and>
        int (length imgs) \<le> C * box_value (rows_input w)"
    using that n by (intro apply_min_grid_size_exact [OF req _ Cpos Rpos fit]) auto
  from req g C ge applied
  show "\<exists>cols rows. requested_grid imgs = Some (cols, rows) \<and>
         get_min_grid_size imgs = Some (cols, rows) \<and>
         cols = int (ceil_sqrt (length imgs)) \<and> cols \<ge> rows \<and>
         (box_minimum (columns_input w) \<le> cols \<and> cols \<le> box_maximum (columns_input w) \<and>
          box_minimum (rows_input w) \<le> rows \<and> rows \<le> box_maximum (rows_input w) \<and>
          box_value (rows_input w) \<le> box_maximum (rows_input w) \<and>
          int (length imgs) \<le> cols * box_value (rows_input w) \<longrightarrow>
            (\<exists>w'. apply_min_grid_size imgs w = Some w' \<and>
               box_value (columns_input w') = cols \<and> box_value (rows_input w') = rows))"
    by blast
next
  have "min_grid_for_count 17 = Some (5, 4)" by code_simp
  then show "requested_grid (replicate 17 x) = Some (5, 4)"
    by (simp add: requested_grid_def get_min_grid_size_def)
qed

lemma requested_grid_swapped_example:
  "\<exists>w'. apply_min_grid_size (replicate 17 ()) init_window = Some w' \<and>
       box_value (columns_input w') = 5 \<and> box_value (rows_input w') = 4"
proof -
  have g: "min_grid_for_count 17 = Some (5, 4)" by code_simp
  have len: "1 \<le> length (replicate 17 ())" by simp
  from requested_grid_swapped [of "replicate 17 ()" init_window, THEN conjunct1, THEN mp, OF len]
  obtain cols rows where
    r: "get_min_grid_size (replicate 17 ()) = Some (cols, rows)"
    and a: "box_minimum (columns_input init_window) \<le> cols \<and>
        cols \<le> box_maximum (columns_input init_window) \<and>
        box_minimum (rows_input init_window) \<le> rows \<and>
        rows \<le> box_maximum (rows_input init_window) \<and>
        box_value (rows_input init_window) \<le> box_maximum (rows_input init_window) \<and>
        int (length (replicate 17 ())) \<le> cols * box_value (rows_input init_window) \<longrightarrow>
        (\<exists>w'. apply_min_grid_size (replicate 17 ()) init_window = Some w' \<and>
           box_value (columns_input w') = cols \<and> box_value (rows_input w') = rows)"
    by blast
  from r g have "cols = 5" "rows = 4" by (simp_all add: get_min_grid_size_def)
  with a show ?thesis by (simp add: init_window_def)
qed

text \<open>
  C10, at a concrete load. 21 images are loaded into the fresh window. The helper
  returns (5, 5), so 5 columns and 5 rows are asked for; but the change of the columns
  runs the constraints while the rows box still shows 4, which raises the columns to 6,
  and the window ends with 6 columns and 5 rows instead of the 5 by 5 asked for.
\<close>

theorem select_folder_21_images:
  "get_min_grid_size (replicate 21 ()) = Some (5, 5) \<and>
   map_option (\<lambda>a. (box_value (columns_input (spin_boxes a)),
                     box_value (rows_input (spin_boxes a))))
     (select_folder init_app True (replicate 21 ())) = Some (6, 5)"
  by code_simp

text \<open>
  The same boxes after a delete: 17 images are loaded (5 columns, 4 rows), then the
  entries 4 to 16 are deleted. For the 4 images left the helper returns (2, 2), but the
  minimums left from the 17 images keep the boxes at 5 columns and 4 rows.
\<close>

lemma delete_keeps_large_grid:
  "(case select_folder init_app True (replicate 17 ()) of
      None \<Rightarrow> None
    | Some a \<Rightarrow>
        (let b = a\<lparr>image_grid := (image_grid a)\<lparr>selected_indices := set [4 .. 16]\<rparr>\<rparr>
         in map_option
              (\<lambda>c. (length (images (image_grid c)),
                     get_min_grid_size (images (image_grid c)),
                     box_value (columns_input (spin_boxes c)),
                     box_value (rows_input (spin_boxes c))))
              (delete_selected_images b))) =
   Some (4, Some (2, 2), 5, 4)"
  by code_simp

end
